theory Spec2Isabelle
  imports Main "HOL-Library.Word" "HOL-Library.Sublist"
begin

section \<open>Text model\<close>

text \<open>
  The functions of \<^verbatim>\<open>misc.go\<close> that walk a string with \<^verbatim>\<open>for _, r := range s\<close> see it as
  a sequence of runes (Go's \<^verbatim>\<open>int32\<close> code points) and build their result with
  \<^verbatim>\<open>string(buf)\<close>. Such a string is modelled by the rune sequence that \<^verbatim>\<open>range\<close> yields,
  which for well-formed UTF-8 text determines the string. Code that indexes bytes and
  compares strings as bytes (\<^verbatim>\<open>naturalLess\<close>), and the locale strings and their error
  messages, are modelled on \<^typ>\<open>string\<close>, a list of bytes.
\<close>

type_synonym rune = "32 word"

definition runes :: "string \<Rightarrow> rune list" where
  \<comment> \<open>the runes of an ASCII literal\<close>
  "runes s = map of_char s"

definition backslash :: rune where "backslash = 0x5C"
definition semicolon :: rune where "semicolon = 0x3B"
definition hash :: rune where "hash = 0x23"
definition squoteR :: rune where "squoteR = 0x27"
definition dquoteR :: rune where "dquoteR = 0x22"
definition newline :: rune where "newline = 0x0A"
definition carriage :: rune where "carriage = 0x0D"

definition IsSpace :: "rune \<Rightarrow> bool" where
  \<comment> \<open>\<^verbatim>\<open>unicode.IsSpace\<close>: the Latin-1 cases, then the White\_Space table; the comparison is
      on \<^verbatim>\<open>uint32(r)\<close>, as the order of words is\<close>
  "IsSpace r =
     (if r \<le> 0xFF
      then r = 0x09 \<or> r = 0x0A \<or> r = 0x0B \<or> r = 0x0C \<or> r = 0x0D \<or> r = 0x20
           \<or> r = 0x85 \<or> r = 0xA0
      else r = 0x1680 \<or> (0x2000 \<le> r \<and> r \<le> 0x200A) \<or> r = 0x2028 \<or> r = 0x2029
           \<or> r = 0x202F \<or> r = 0x205F \<or> r = 0x3000)"

section \<open>Escaper\<close>

definition special :: "rune \<Rightarrow> bool" where
  \<comment> \<open>the test shared by \<^verbatim>\<open>escape\<close> and (negated) by \<^verbatim>\<open>unescape\<close>\<close>
  "special r = (IsSpace r \<or> r = backslash \<or> r = semicolon \<or> r = hash)"

fun escapeLoop :: "rune list \<Rightarrow> rune list \<Rightarrow> rune list" where
  "escapeLoop [] buf = buf"
| "escapeLoop (r # rs) buf =
     escapeLoop rs ((if special r then buf @ [backslash] else buf) @ [r])"

definition escape :: "rune list \<Rightarrow> rune list" where
  "escape s = escapeLoop s []"

fun unescapeLoop :: "rune list \<Rightarrow> bool \<Rightarrow> rune list \<Rightarrow> rune list" where
  "unescapeLoop [] esc buf = (if esc then buf @ [backslash] else buf)"
| "unescapeLoop (r # rs) esc buf =
     (if esc
      then unescapeLoop rs False ((if special r then buf else buf @ [backslash]) @ [r])
      else if r = backslash then unescapeLoop rs True buf
      else unescapeLoop rs False (buf @ [r]))"

definition unescape :: "rune list \<Rightarrow> rune list" where
  "unescape s = unescapeLoop s False []"

fun escPending :: "rune list \<Rightarrow> bool \<Rightarrow> bool" where
  \<comment> \<open>the value of \<^verbatim>\<open>esc\<close> when the scan of \<^verbatim>\<open>unescape\<close> reaches the end of the string\<close>
  "escPending [] esc = esc"
| "escPending (r # rs) esc = (if esc then escPending rs False else escPending rs (r = backslash))"

definition trailingBackslash :: "rune list \<Rightarrow> bool" where
  \<comment> \<open>the string ends in a backslash that no earlier backslash escapes\<close>
  "trailingBackslash s = escPending s False"

section \<open>Tokenizer\<close>

fun tokenizeLoop :: "rune list \<Rightarrow> bool \<Rightarrow> rune list \<Rightarrow> rune list list \<Rightarrow> rune list list" where
  "tokenizeLoop [] esc buf toks = toks @ [buf]"
| "tokenizeLoop (r # rs) esc buf toks =
     (if r = backslash then tokenizeLoop rs True (buf @ [r]) toks
      else if esc then tokenizeLoop rs False (buf @ [r]) toks
      else if \<not> IsSpace r then tokenizeLoop rs esc (buf @ [r]) toks
      else tokenizeLoop rs esc [] (toks @ [buf]))"

definition tokenize :: "rune list \<Rightarrow> rune list list" where
  "tokenize s = tokenizeLoop s False [] []"

text \<open>
  The splitting that the specification describes, written without the loop: every rune is
  paired with the flag "the rune before it is a backslash", a separator is a white-space
  rune whose flag is off, and \<open>splitWhere\<close> cuts a list at its separators, dropping them;
  \<open>n\<close> separators give \<open>n + 1\<close> pieces, empty ones included.
\<close>

fun splitWhere :: "('a \<Rightarrow> bool) \<Rightarrow> 'a list \<Rightarrow> 'a list list" where
  "splitWhere P [] = [[]]"
| "splitWhere P (x # xs) =
     (if P x then [] # splitWhere P xs
      else (x # hd (splitWhere P xs)) # tl (splitWhere P xs))"

definition afterBackslash :: "bool \<Rightarrow> rune list \<Rightarrow> (rune \<times> bool) list" where
  "afterBackslash e s = zip s (e # map (\<lambda>c. c = backslash) s)"

definition separator :: "rune \<times> bool \<Rightarrow> bool" where
  "separator p = (IsSpace (fst p) \<and> \<not> snd p)"

definition tokenizeSpec :: "rune list \<Rightarrow> rune list list" where
  "tokenizeSpec s = map (map fst) (splitWhere separator (afterBackslash False s))"

section \<open>StructuredLineParser\<close>

text \<open>
  \<^verbatim>\<open>readArrays\<close> reads its \<^verbatim>\<open>io.Reader\<close> through a \<^verbatim>\<open>bufio.Scanner\<close> with the default
  split function \<^verbatim>\<open>ScanLines\<close>. The reader is modelled by the text it delivers (no read
  error). \<open>scanTokens\<close> cuts the text at every newline; a last line without newline is a
  token unless it is empty. The scanner gives up (\<^verbatim>\<open>Scan\<close> returns false, the error
  \<^verbatim>\<open>ErrTooLong\<close> stays in \<^verbatim>\<open>s.Err()\<close>, which \<^verbatim>\<open>readArrays\<close> does not read) at the first
  line that does not fit its buffer of \<^verbatim>\<open>MaxScanTokenSize\<close> bytes, so the lines it yields
  are the tokens before such a line, each without one trailing carriage return. The
  byte length of a line is the sum of the UTF-8 lengths of its runes.
\<close>

fun scanTokens :: "rune list \<Rightarrow> rune list \<Rightarrow> rune list list" where
  "scanTokens [] tok = (if tok = [] then [] else [tok])"
| "scanTokens (c # cs) tok =
     (if c = newline then tok # scanTokens cs [] else scanTokens cs (tok @ [c]))"

definition dropCR :: "rune list \<Rightarrow> rune list" where
  "dropCR l = (if l \<noteq> [] \<and> last l = carriage then butlast l else l)"

definition runeLen :: "rune \<Rightarrow> nat" where
  "runeLen r = (if r < 0x80 then 1 else if r < 0x800 then 2 else if r < 0x10000 then 3 else 4)"

definition byteLen :: "rune list \<Rightarrow> nat" where
  "byteLen l = sum_list (map runeLen l)"

definition maxScanTokenSize :: nat where
  "maxScanTokenSize = 64 * 1024"

definition scanLines :: "rune list \<Rightarrow> rune list list" where
  "scanLines text =
     map dropCR (takeWhile (\<lambda>l. byteLen l < maxScanTokenSize) (scanTokens text []))"

text \<open>
  The quote state is the pair of flags \<^verbatim>\<open>squote\<close>, \<^verbatim>\<open>dquote\<close>; the \<^verbatim>\<open>if ... else if\<close> that
  updates it on a character is the same in the comment scan and in the closure given to
  \<^verbatim>\<open>strings.FieldsFunc\<close>. The comment scan indexes bytes, and looks for ASCII characters
  only, which in well-formed UTF-8 are the runes of the same value.
\<close>

definition squoteNext :: "rune \<Rightarrow> bool \<Rightarrow> bool \<Rightarrow> bool" where
  "squoteNext c squote dquote = (if c = squoteR \<and> \<not> dquote then \<not> squote else squote)"

definition dquoteNext :: "rune \<Rightarrow> bool \<Rightarrow> bool \<Rightarrow> bool" where
  "dquoteNext c squote dquote =
     (if c = squoteR \<and> \<not> dquote then dquote
      else if c = dquoteR \<and> \<not> squote then \<not> dquote else dquote)"

fun stripComment :: "rune list \<Rightarrow> bool \<Rightarrow> bool \<Rightarrow> rune list" where
  "stripComment [] squote dquote = []"
| "stripComment (c # cs) squote dquote =
     (if \<not> squoteNext c squote dquote \<and> \<not> dquoteNext c squote dquote \<and> c = hash then []
      else c # stripComment cs (squoteNext c squote dquote) (dquoteNext c squote dquote))"

text \<open>\<^verbatim>\<open>strings.TrimSpace\<close>: without the leading and trailing white space.\<close>

definition TrimSpace :: "rune list \<Rightarrow> rune list" where
  "TrimSpace s = rev (dropWhile IsSpace (rev (dropWhile IsSpace s)))"

text \<open>
  \<^verbatim>\<open>strings.FieldsFunc\<close> with the closure of \<^verbatim>\<open>readArrays\<close>: the library calls the closure
  once on every rune, from left to right; \<open>cur\<close> is the field being read (\<^verbatim>\<open>start >= 0\<close>
  in the library), \<open>spans\<close> the fields closed so far.
\<close>

fun fieldsLoop ::
  "rune list \<Rightarrow> bool \<Rightarrow> bool \<Rightarrow> rune list option \<Rightarrow> rune list list \<Rightarrow> rune list list" where
  "fieldsLoop [] squote dquote cur spans =
     (case cur of None \<Rightarrow> spans | Some f \<Rightarrow> spans @ [f])"
| "fieldsLoop (r # rs) squote dquote cur spans =
     (if \<not> squoteNext r squote dquote \<and> \<not> dquoteNext r squote dquote \<and> IsSpace r
      then fieldsLoop rs (squoteNext r squote dquote) (dquoteNext r squote dquote) None
             (case cur of None \<Rightarrow> spans | Some f \<Rightarrow> spans @ [f])
      else fieldsLoop rs (squoteNext r squote dquote) (dquoteNext r squote dquote)
             (case cur of None \<Rightarrow> Some [r] | Some f \<Rightarrow> Some (f @ [r])) spans)"

text \<open>The last pass over each field, with a fresh quote state.\<close>

fun stripQuotes :: "rune list \<Rightarrow> bool \<Rightarrow> bool \<Rightarrow> rune list \<Rightarrow> rune list" where
  "stripQuotes [] squote dquote buf = buf"
| "stripQuotes (r # rs) squote dquote buf =
     (if r = squoteR \<and> \<not> dquote then stripQuotes rs (\<not> squote) dquote buf
      else if r = dquoteR \<and> \<not> squote then stripQuotes rs squote (\<not> dquote) buf
      else stripQuotes rs squote dquote (buf @ [r]))"

text \<open>\<^verbatim>\<open>%d\<close> of \<^verbatim>\<open>fmt.Errorf\<close>, and the two error messages.\<close>

fun showNat :: "nat \<Rightarrow> rune list" where
  "showNat n = (if n < 10 then [of_nat (48 + n)] else showNat (n div 10) @ [of_nat (48 + n mod 10)])"

declare showNat.simps [simp del]

definition showInt :: "int \<Rightarrow> rune list" where
  "showInt i = (if i < 0 then 0x2D # showNat (nat (- i)) else showNat (nat i))"

definition columnsError :: "int \<Rightarrow> int \<Rightarrow> rune list \<Rightarrow> rune list" where
  "columnsError min_cols max_cols text =
     (if min_cols = max_cols
      then runes ''expected '' @ showInt min_cols @ runes '' columns but found: '' @ text
      else runes ''expected '' @ showInt min_cols @ runes ''~'' @ showInt max_cols
           @ runes '' columns but found: '' @ text)"

text \<open>
  The loop \<^verbatim>\<open>for s.Scan()\<close> over the lines the scanner yields, and the pair
  \<^verbatim>\<open>([][]string, error)\<close> that \<^verbatim>\<open>readArrays\<close> returns (\<^verbatim>\<open>nil\<close> is \<open>[]\<close> and \<open>None\<close>).
\<close>

fun readLoop ::
  "rune list list \<Rightarrow> int \<Rightarrow> int \<Rightarrow> rune list list list
   \<Rightarrow> rune list list list \<times> rune list option" where
  "readLoop [] min_cols max_cols arrays = (arrays, None)"
| "readLoop (text # rest) min_cols max_cols arrays =
     (let line = TrimSpace (stripComment text False False)
      in if line = [] then readLoop rest min_cols max_cols arrays
         else let arr = fieldsLoop line False False None []
              in if int (length arr) < min_cols \<or> int (length arr) > max_cols
                 then ([], Some (columnsError min_cols max_cols text))
                 else readLoop rest min_cols max_cols
                        (arrays @ [map (\<lambda>f. stripQuotes f False False []) arr]))"

definition readArrays ::
  "rune list \<Rightarrow> int \<Rightarrow> int \<Rightarrow> rune list list list \<times> rune list option" where
  "readArrays r min_cols max_cols = readLoop (scanLines r) min_cols max_cols []"

definition readPairs :: "rune list \<Rightarrow> rune list list list \<times> rune list option" where
  "readPairs r = readArrays r 2 2"

text \<open>
  The candidate fields of a line, and the lines that \<^verbatim>\<open>readArrays\<close> rejects: not blank
  after comment stripping and trimming, with a number of candidate fields outside the
  bounds.
\<close>

definition candidates :: "rune list \<Rightarrow> rune list list" where
  "candidates text = fieldsLoop (TrimSpace (stripComment text False False)) False False None []"

definition malformed :: "int \<Rightarrow> int \<Rightarrow> rune list \<Rightarrow> bool" where
  "malformed min_cols max_cols text =
     (TrimSpace (stripComment text False False) \<noteq> []
      \<and> (int (length (candidates text)) < min_cols \<or> int (length (candidates text)) > max_cols))"

text \<open>The input of the example: five lines, the last one without newline.\<close>

definition pairsInput :: "rune list" where
  "pairsInput =
     runes ''key1 value1'' @ [newline]
     @ runes ''key2 '' @ [squoteR] @ runes ''value two'' @ [squoteR] @ [newline]
     @ runes ''# comment'' @ [newline]
     @ [newline]
     @ runes ''key3 value3''"

text \<open>
  A text of three lines whose second line is as long as the scanner's token limit: \<^verbatim>\<open>a b\<close>,
  65536 times the letter x, and \<^verbatim>\<open>c d e\<close>.
\<close>

definition longText :: "rune list" where
  "longText =
     runes ''a b'' @ [newline]
     @ replicate maxScanTokenSize 0x78 @ [newline]
     @ runes ''c d e''"

section \<open>NaturalComparator\<close>

definition isDigit :: "char \<Rightarrow> bool" where
  \<comment> \<open>Modelled from the spec: \<^verbatim>\<open>isDigit\<close> is called by \<^verbatim>\<open>naturalLess\<close> and defined in
      another file of the repository; the specification speaks of digits and digit runs,
      taken here as the bytes \<^verbatim>\<open>'0'\<close> to \<^verbatim>\<open>'9'\<close>.\<close>
  "isDigit b = ((48::nat) \<le> of_char b \<and> of_char b \<le> (57::nat))"

definition slice :: "string \<Rightarrow> nat \<Rightarrow> nat \<Rightarrow> string" where
  \<comment> \<open>\<^verbatim>\<open>s[lo:hi]\<close>, used with \<open>lo \<le> hi \<le> length s\<close> only\<close>
  "slice s lo hi = take (hi - lo) (drop lo s)"

text \<open>Go's \<^verbatim>\<open><\<close> on strings: the lexicographic order of the bytes.\<close>

fun strLess :: "string \<Rightarrow> string \<Rightarrow> bool" where
  "strLess [] [] = False"
| "strLess [] (y # ys) = True"
| "strLess (x # xs) [] = False"
| "strLess (x # xs) (y # ys) =
     ((of_char x :: nat) < of_char y \<or> (x = y \<and> strLess xs ys))"

text \<open>
  \<^verbatim>\<open>strconv.Atoi\<close> on a 64-bit platform: an optional sign, then decimal digits only; the
  error is \<open>None\<close>, returned for an empty or malformed string and for a value outside
  the range of \<^verbatim>\<open>int\<close>.
\<close>

fun decimalAcc :: "int \<Rightarrow> string \<Rightarrow> int" where
  "decimalAcc n [] = n"
| "decimalAcc n (c # cs) = decimalAcc (n * 10 + (int (of_char c) - 48)) cs"

definition decimal :: "string \<Rightarrow> int" where
  "decimal ds = decimalAcc 0 ds"

definition maxInt :: int where
  "maxInt = 2 ^ 63 - 1"

definition Atoi :: "string \<Rightarrow> int option" where
  "Atoi s =
     (let neg = (s \<noteq> [] \<and> hd s = CHR ''-'');
          ds = (if s \<noteq> [] \<and> (hd s = CHR ''-'' \<or> hd s = CHR ''+'') then tl s else s)
      in if ds \<noteq> [] \<and> list_all isDigit ds
         then (if neg then (if decimal ds \<le> maxInt + 1 then Some (- decimal ds) else None)
               else (if decimal ds \<le> maxInt then Some (decimal ds) else None))
         else None)"

text \<open>
  The inner loops \<^verbatim>\<open>for lo = hi; hi < len(s) && isDigit(s[hi]) == d; hi++ {}\<close>: the end
  of the run of class \<open>d\<close> that starts at \<open>hi\<close>.
\<close>

function runEnd :: "string \<Rightarrow> bool \<Rightarrow> nat \<Rightarrow> nat" where
  "runEnd s d hi = (if hi < length s \<and> isDigit (s ! hi) = d then runEnd s d (Suc hi) else hi)"
  by pat_completeness auto
termination
  by (relation "measure (\<lambda>(s, d, hi). length s - hi)") auto

declare runEnd.simps [simp del]

text \<open>The comparison of two runs that differ as texts, the last lines of the loop body.\<close>

definition compareRuns :: "bool \<Rightarrow> bool \<Rightarrow> string \<Rightarrow> string \<Rightarrow> bool" where
  "compareRuns isDigit1 isDigit2 r1 r2 =
     (if isDigit1 \<and> isDigit2
      then (case (Atoi r1, Atoi r2) of
              (Some num1, Some num2) \<Rightarrow> num1 < num2
            | _ \<Rightarrow> strLess r1 r2)
      else strLess r1 r2)"

text \<open>
  The outer loop on the two cursors \<^verbatim>\<open>hi1\<close>, \<^verbatim>\<open>hi2\<close>. Each round moves \<^verbatim>\<open>hi1\<close> forward by
  at least one byte, which is the termination argument.
\<close>

function naturalLessLoop :: "string \<Rightarrow> string \<Rightarrow> nat \<Rightarrow> nat \<Rightarrow> bool" where
  "naturalLessLoop s1 s2 hi1 hi2 =
     (if hi1 \<ge> length s1 then hi2 \<noteq> length s2
      else if hi2 \<ge> length s2 then False
      else if slice s1 hi1 (runEnd s1 (isDigit (s1 ! hi1)) hi1)
              = slice s2 hi2 (runEnd s2 (isDigit (s2 ! hi2)) hi2)
           then naturalLessLoop s1 s2 (runEnd s1 (isDigit (s1 ! hi1)) hi1)
                                      (runEnd s2 (isDigit (s2 ! hi2)) hi2)
           else compareRuns (isDigit (s1 ! hi1)) (isDigit (s2 ! hi2))
                  (slice s1 hi1 (runEnd s1 (isDigit (s1 ! hi1)) hi1))
                  (slice s2 hi2 (runEnd s2 (isDigit (s2 ! hi2)) hi2)))"
  by pat_completeness auto
termination
proof (relation "measure (\<lambda>(s1, s2, hi1, hi2). length s1 - hi1)")
  show "wf (measure (\<lambda>(s1, s2, hi1, hi2). length s1 - hi1))" by simp
next
  fix s1 s2 :: string and hi1 hi2 :: nat
  assume a: "\<not> length s1 \<le> hi1"
  have ge: "hi \<le> runEnd s d hi" for s d hi
    by (induction s d hi rule: runEnd.induct) (subst runEnd.simps, auto)
  have "runEnd s1 (isDigit (s1 ! hi1)) hi1 = runEnd s1 (isDigit (s1 ! hi1)) (Suc hi1)"
    using a by (subst runEnd.simps) simp
  then have "hi1 < runEnd s1 (isDigit (s1 ! hi1)) hi1"
    using ge [of "Suc hi1" s1 "isDigit (s1 ! hi1)"] by simp
  then show "((s1, s2, runEnd s1 (isDigit (s1 ! hi1)) hi1, runEnd s2 (isDigit (s2 ! hi2)) hi2),
              (s1, s2, hi1, hi2)) \<in> measure (\<lambda>(s1, s2, hi1, hi2). length s1 - hi1)"
    using a by simp
qed

declare naturalLessLoop.simps [simp del]

definition naturalLess :: "string \<Rightarrow> string \<Rightarrow> bool" where
  "naturalLess s1 s2 = naturalLessLoop s1 s2 0 0"

text \<open>
  The ordering key of the specification: a string as the list of its maximal runs of
  digits and of non-digits, and the comparison written on two such lists.
\<close>

fun runs :: "string \<Rightarrow> string list" where
  "runs [] = []"
| "runs (c # cs) =
     (case runs cs of
        [] \<Rightarrow> [[c]]
      | r # rs \<Rightarrow> if isDigit c = isDigit (hd r) then (c # r) # rs else [c] # r # rs)"

fun lessRuns :: "string list \<Rightarrow> string list \<Rightarrow> bool" where
  "lessRuns [] ys = (ys \<noteq> [])"
| "lessRuns (x # xs) [] = False"
| "lessRuns (x # xs) (y # ys) =
     (if x = y then lessRuns xs ys
      else compareRuns (isDigit (hd x)) (isDigit (hd y)) x y)"

section \<open>DisplayWidthSlicer\<close>

text \<open>
  \<^verbatim>\<open>runewidth.RuneWidth\<close> belongs to an external library; the functions below take it as
  the parameter \<open>rw\<close>. The library returns 0, 1 or 2 columns, so the theorems assume
  \<open>\<forall>r. 0 \<le> rw r\<close>. Go's \<^verbatim>\<open>int\<close> is modelled by \<^typ>\<open>int\<close>: the sums of widths stay
  far below the range of a machine integer.
\<close>

fun runeSliceWidth :: "(rune \<Rightarrow> int) \<Rightarrow> rune list \<Rightarrow> int" where
  "runeSliceWidth rw [] = 0"
| "runeSliceWidth rw (r # rs) = rw r + runeSliceWidth rw rs"

fun widthRangeLoop ::
  "(rune \<Rightarrow> int) \<Rightarrow> rune list \<Rightarrow> int \<Rightarrow> int \<Rightarrow> rune list \<Rightarrow> nat \<Rightarrow> int \<Rightarrow> nat \<Rightarrow> bool \<Rightarrow> rune list"
where
  "widthRangeLoop rw rs beg en [] i currW b foundb = drop b rs"
| "widthRangeLoop rw rs beg en (r # rest) i currW b foundb =
     (let w = rw r;
          b' = (if currW \<ge> beg \<and> \<not> foundb then i else b);
          foundb' = (if currW \<ge> beg \<and> \<not> foundb then True else foundb)
      in if currW = en \<or> currW + w > en then take (i - b') (drop b' rs)
         else widthRangeLoop rw rs beg en rest (Suc i) (currW + w) b' foundb')"

definition runeSliceWidthRange :: "(rune \<Rightarrow> int) \<Rightarrow> rune list \<Rightarrow> int \<Rightarrow> int \<Rightarrow> rune list" where
  "runeSliceWidthRange rw rs beg en =
     (if beg = en then [] else widthRangeLoop rw rs beg en rs 0 0 0 False)"

fun widthLastLoop :: "(rune \<Rightarrow> int) \<Rightarrow> rune list \<Rightarrow> int \<Rightarrow> nat \<Rightarrow> int \<Rightarrow> rune list" where
  "widthLastLoop rw rs maxWidth 0 lastWidth = rs"
| "widthLastLoop rw rs maxWidth (Suc i) lastWidth =
     (let w = rw (rs ! i)
      in if lastWidth + w > maxWidth then drop (Suc i) rs
         else widthLastLoop rw rs maxWidth i (lastWidth + w))"

definition runeSliceWidthLastRange :: "(rune \<Rightarrow> int) \<Rightarrow> rune list \<Rightarrow> int \<Rightarrow> rune list" where
  "runeSliceWidthLastRange rw rs maxWidth = widthLastLoop rw rs maxWidth (length rs) 0"

definition sampleWidth :: "rune \<Rightarrow> int" where
  \<comment> \<open>a width function in the manner of \<^verbatim>\<open>RuneWidth\<close>, to run the slicer on concrete
      input: control characters and the combining marks U+0300..U+036F take no column,
      the CJK ideographs U+4E00..U+9FFF take two, every other rune one\<close>
  "sampleWidth r =
     (if r < 0x20 \<or> (0x7F \<le> r \<and> r \<le> 0x9F) \<or> (0x300 \<le> r \<and> r \<le> 0x36F) then 0
      else if 0x4E00 \<le> r \<and> r \<le> 0x9FFF then 2
      else 1)"

text \<open>
  The runes of zero width at the end of a sequence: \<open>zeroTail\<close> is the longest suffix made
  of them, \<open>dropZeroTail\<close> the sequence without it.
\<close>

definition zeroTail :: "(rune \<Rightarrow> int) \<Rightarrow> rune list \<Rightarrow> rune list" where
  "zeroTail rw rs = rev (takeWhile (\<lambda>r. rw r = 0) (rev rs))"

definition dropZeroTail :: "(rune \<Rightarrow> int) \<Rightarrow> rune list \<Rightarrow> rune list" where
  "dropZeroTail rw rs = rev (dropWhile (\<lambda>r. rw r = 0) (rev rs))"

definition tenCols :: "rune list" where
  \<comment> \<open>six narrow runes and two wide ones: ten columns\<close>
  "tenCols = runes ''abcdef'' @ [0x4E2D, 0x6587]"

section \<open>Locale tags and collators\<close>

text \<open>
  The language tags, \<^verbatim>\<open>language.Parse\<close>, \<^verbatim>\<open>locale.Detect\<close>, \<^verbatim>\<open>collate.New\<close> and the \<^verbatim>\<open>%q\<close>
  of \<^verbatim>\<open>fmt.Errorf\<close> (\<^verbatim>\<open>strconv.Quote\<close>) belong to libraries: they are parameters. A Go
  result \<^verbatim>\<open>(Tag, error)\<close> is a pair with an optional message; \<^verbatim>\<open>makeCollator\<close> returns
  either an error or a collator.
\<close>

definition localeStrDisable :: string where "localeStrDisable = ''''"
definition localeStrSys :: string where "localeStrSys = ''*''"

definition getLocaleTag ::
  "(string \<Rightarrow> string) \<Rightarrow> (string \<Rightarrow> 'tag \<times> string option) \<Rightarrow> 'tag \<times> string option
   \<Rightarrow> string \<Rightarrow> 'tag \<times> string option" where
  "getLocaleTag Quote Parse Detect localeStr =
     (if localeStr = localeStrSys then Detect
      else (case Parse localeStr of
              (localeTag, Some err) \<Rightarrow>
                (localeTag, Some (''invalid locale '' @ Quote localeStr @ '': '' @ err))
            | (localeTag, None) \<Rightarrow> (localeTag, None)))"

definition makeCollator ::
  "(string \<Rightarrow> string) \<Rightarrow> (string \<Rightarrow> 'tag \<times> string option) \<Rightarrow> 'tag \<times> string option
   \<Rightarrow> ('tag \<Rightarrow> 'opts \<Rightarrow> 'coll) \<Rightarrow> string \<Rightarrow> 'opts \<Rightarrow> string + 'coll" where
  "makeCollator Quote Parse Detect New localeStr opts =
     (if localeStr = localeStrDisable
      then Inl ''locale suppose to be disabled with given string''
      else (case getLocaleTag Quote Parse Detect localeStr of
              (localeTag, Some err) \<Rightarrow> Inl err
            | (localeTag, None) \<Rightarrow> Inr (New localeTag opts)))"

text \<open>
  Stand-ins for the library functions, to run the two functions on concrete input:
  \<open>plainQuote\<close> is \<^verbatim>\<open>strconv.Quote\<close> on strings of printable ASCII without quotes and
  backslashes, which it only wraps in double quotes.
\<close>

definition plainQuote :: "string \<Rightarrow> string" where
  "plainQuote s = [CHR 0x22] @ s @ [CHR 0x22]"

definition sampleParse :: "string \<Rightarrow> string \<times> string option" where
  "sampleParse s =
     (if s = ''en'' \<or> s = ''de'' \<or> s = ''ja'' then (s, None)
      else (''und'', Some ''language: tag is not well-formed''))"

definition sampleDetect :: "string \<times> string option" where
  "sampleDetect = (''und'', Some ''Not detected'')"

definition sampleNew :: "string \<Rightarrow> unit \<Rightarrow> string" where
  "sampleNew localeTag opts = localeTag"

section \<open>Escaper: round trip\<close>

lemma escapeLoop_append: "escapeLoop s buf = buf @ escapeLoop s []"
proof (induction s arbitrary: buf)
  case Nil
  show ?case by simp
next
  case (Cons r rs)
  show ?case
  proof (cases "special r")
    case True
    then show ?thesis
      using Cons.IH [of "buf @ [backslash, r]"] Cons.IH [of "[backslash, r]"] by simp
  next
    case False
    then show ?thesis
      using Cons.IH [of "buf @ [r]"] Cons.IH [of "[r]"] by simp
  qed
qed

lemma escape_Cons:
  "escape (r # rs) = (if special r then [backslash, r] else [r]) @ escape rs"
proof (cases "special r")
  case True
  then show ?thesis
    unfolding escape_def using escapeLoop_append [of rs "[backslash, r]"] by simp
next
  case False
  then show ?thesis
    unfolding escape_def using escapeLoop_append [of rs "[r]"] by simp
qed

lemma unescapeLoop_escape: "unescapeLoop (escape s) False buf = buf @ s"
proof (induction s arbitrary: buf)
  case Nil
  show ?case by (simp add: escape_def)
next
  case (Cons r rs)
  show ?case
  proof (cases "special r")
    case True
    then show ?thesis by (simp add: escape_Cons Cons.IH)
  next
    case False
    then have "r \<noteq> backslash" by (auto simp: special_def)
    with False show ?thesis by (simp add: escape_Cons Cons.IH)
  qed
qed

text \<open>
  C6: for every string \<open>s\<close> that does not end in a trailing unescaped backslash,
  \<open>unescape (escape s) = s\<close>. (Lemma \<open>unescapeLoop_escape\<close> shows that the code needs no
  condition on \<open>s\<close>: \<open>escape\<close> doubles every backslash.)
\<close>

theorem unescape_escape_id:
  assumes "\<not> trailingBackslash s"
  shows "unescape (escape s) = s"
  unfolding unescape_def by (simp add: unescapeLoop_escape)

theorem unescape_escape_id_witness:
  "\<not> trailingBackslash (runes ''a b;#c'') \<and>
   unescape (escape (runes ''a b;#c'')) = runes ''a b;#c''"
proof -
  have h: "\<not> trailingBackslash (runes ''a b;#c'')"
    by (simp add: trailingBackslash_def runes_def backslash_def)
  show ?thesis using h unescape_escape_id [OF h] by simp
qed

section \<open>Tokenizer: splitting at unescaped white space\<close>

lemma splitWhere_nonempty: "splitWhere P xs \<noteq> []"
  by (induction xs) simp_all

lemma length_splitWhere: "length (splitWhere P xs) = Suc (length (filter P xs))"
  by (induction xs) (simp_all add: splitWhere_nonempty)

lemma concat_splitWhere: "concat (splitWhere P xs) = filter (\<lambda>x. \<not> P x) xs"
proof (induction xs)
  case Nil show ?case by simp
next
  case (Cons x xs)
  have "concat (splitWhere P xs) = hd (splitWhere P xs) @ concat (tl (splitWhere P xs))"
    using splitWhere_nonempty [of P xs] by (cases "splitWhere P xs") simp_all
  with Cons show ?case by simp
qed

lemma map_hd_tl: "xs \<noteq> [] \<Longrightarrow> map g (hd xs) # map (map g) (tl xs) = map (map g) xs"
  by (cases xs) simp_all

lemma IsSpace_backslash: "\<not> IsSpace backslash"
  by (simp add: IsSpace_def backslash_def)

lemma afterBackslash_Cons:
  "afterBackslash e (r # rs) = (r, e) # afterBackslash (r = backslash) rs"
  by (simp add: afterBackslash_def)

lemma tokenizeLoop_split:
  "tokenizeLoop s esc buf toks =
     toks @ (buf @ map fst (hd (splitWhere separator (afterBackslash esc s))))
          # map (map fst) (tl (splitWhere separator (afterBackslash esc s)))"
proof (induction s arbitrary: esc buf toks)
  case Nil
  show ?case by (simp add: afterBackslash_def)
next
  case (Cons r rs)
  show ?case
  proof (cases "r = backslash")
    case True
    then show ?thesis
      by (simp add: Cons.IH afterBackslash_Cons separator_def IsSpace_backslash)
  next
    case False
    then show ?thesis
      by (simp add: Cons.IH afterBackslash_Cons separator_def map_hd_tl splitWhere_nonempty)
  qed
qed

lemma tokenize_refines: "tokenize s = tokenizeSpec s"
proof -
  have "map (map fst) (splitWhere separator (afterBackslash False s))
      = map fst (hd (splitWhere separator (afterBackslash False s)))
        # map (map fst) (tl (splitWhere separator (afterBackslash False s)))"
    using splitWhere_nonempty [of separator "afterBackslash False s"]
    by (cases "splitWhere separator (afterBackslash False s)") simp_all
  then show ?thesis
    by (simp add: tokenize_def tokenizeSpec_def tokenizeLoop_split)
qed

text \<open>
  C3: for every string \<open>s\<close>, \<open>tokenize s\<close> splits \<open>s\<close> exactly at the white-space runes
  that no backslash immediately precedes; a backslash and the rune after it stay in the
  token unchanged, so the tokens together are \<open>s\<close> without its separators; every
  separator closes one token and a last token is always appended, so there is one token
  more than there are separators and the result is never empty; \<open>tokenize "" = [""]\<close> and
  \<open>tokenize "a  b" = ["a", "", "b"]\<close>. The last conjunct runs an escaped space.
\<close>

theorem tokenize_splits_at_unescaped_space:
  "tokenize s = map (map fst) (splitWhere separator (afterBackslash False s))
   \<and> tokenize s \<noteq> []
   \<and> length (tokenize s) = Suc (length (filter separator (afterBackslash False s)))
   \<and> concat (tokenize s) = map fst (filter (\<lambda>p. \<not> separator p) (afterBackslash False s))
   \<and> tokenize [] = [[]]
   \<and> tokenize (runes ''a  b'') = [runes ''a'', [], runes ''b'']
   \<and> tokenize (runes ''a'' @ [backslash] @ runes '' b c'')
        = [runes ''a'' @ [backslash] @ runes '' b'', runes ''c'']"
proof -
  have r: "tokenize s = map (map fst) (splitWhere separator (afterBackslash False s))"
    using tokenize_refines by (simp add: tokenizeSpec_def)
  have c: "concat (tokenize s) = map fst (filter (\<lambda>p. \<not> separator p) (afterBackslash False s))"
    unfolding r by (simp add: map_concat [symmetric] concat_splitWhere)
  have e: "tokenize [] = [[]]" "tokenize (runes ''a  b'') = [runes ''a'', [], runes ''b'']"
    "tokenize (runes ''a'' @ [backslash] @ runes '' b c'')
        = [runes ''a'' @ [backslash] @ runes '' b'', runes ''c'']"
    by (simp_all add: tokenize_def runes_def backslash_def IsSpace_def)
  show ?thesis using r c e by (simp add: splitWhere_nonempty length_splitWhere)
qed

section \<open>StructuredLineParser: rows and errors\<close>

lemma scan_pairsInput:
  "scanLines pairsInput =
     [runes ''key1 value1'', runes ''key2 '' @ [squoteR] @ runes ''value two'' @ [squoteR],
      runes ''# comment'', [], runes ''key3 value3'']"
  by (simp add: scanLines_def pairsInput_def runes_def newline_def squoteR_def dropCR_def
      carriage_def byteLen_def runeLen_def maxScanTokenSize_def)

text \<open>
  C1: on the text \<^verbatim>\<open>key1 value1\<close>, \<^verbatim>\<open>key2 'value two'\<close>, \<^verbatim>\<open># comment\<close>, an empty line and
  \<^verbatim>\<open>key3 value3\<close>, \<^verbatim>\<open>readPairs\<close> succeeds with exactly the three rows
  \<open>["key1", "value1"]\<close>, \<open>["key2", "value two"]\<close>, \<open>["key3", "value3"]\<close> in this order: the
  comment line and the empty line give no row, and the quotes are gone while the space
  they protected stays inside one field.
\<close>

theorem readPairs_example:
  "readPairs pairsInput =
     ([[runes ''key1'', runes ''value1''], [runes ''key2'', runes ''value two''],
       [runes ''key3'', runes ''value3'']], None)"
  unfolding readPairs_def readArrays_def scan_pairsInput
  by (simp add: runes_def squoteR_def dquoteR_def hash_def TrimSpace_def IsSpace_def
      squoteNext_def dquoteNext_def)

text \<open>The loop fails at the first rejected line, whatever rows it has collected.\<close>

lemma readLoop_first_malformed:
  "find (malformed min_cols max_cols) toks = Some l \<Longrightarrow>
   readLoop toks min_cols max_cols arrays = ([], Some (columnsError min_cols max_cols l))"
proof (induction toks arbitrary: arrays)
  case Nil
  then show ?case by simp
next
  case (Cons t rest)
  show ?case
  proof (cases "malformed min_cols max_cols t")
    case True
    then have "l = t" using Cons.prems by simp
    with True show ?thesis by (auto simp: malformed_def candidates_def Let_def)
  next
    case False
    then have "find (malformed min_cols max_cols) rest = Some l" using Cons.prems by simp
    then have "\<And>a. readLoop rest min_cols max_cols a
                 = ([], Some (columnsError min_cols max_cols l))"
      by (rule Cons.IH)
    with False show ?thesis by (auto simp: malformed_def candidates_def Let_def)
  qed
qed

text \<open>The scanner's split of a text at its line feeds, and what it yields of \<^verbatim>\<open>longText\<close>.\<close>

lemma scanTokens_line:
  "newline \<notin> set xs \<Longrightarrow>
   scanTokens (xs @ newline # rest) tok = (tok @ xs) # scanTokens rest []"
  by (induction xs arbitrary: tok) auto

lemma scanTokens_last:
  "newline \<notin> set xs \<Longrightarrow>
   scanTokens xs tok = (if tok @ xs = [] then [] else [tok @ xs])"
  by (induction xs arbitrary: tok) auto

lemma byteLen_replicate_x: "byteLen (replicate n 0x78) = n"
  by (simp add: byteLen_def runeLen_def sum_list_replicate)

lemma scanTokens_longText:
  "scanTokens longText [] = [runes ''a b'', replicate maxScanTokenSize 0x78, runes ''c d e'']"
proof -
  have 1: "newline \<notin> set (runes ''a b'')" "newline \<notin> set (runes ''c d e'')"
    "runes ''c d e'' \<noteq> []"
    by (simp_all add: runes_def newline_def)
  have 2: "newline \<notin> set (replicate maxScanTokenSize (0x78 :: rune))"
    by (simp add: newline_def)
  have "scanTokens longText []
        = runes ''a b''
          # scanTokens (replicate maxScanTokenSize 0x78 @ newline # runes ''c d e'') []"
    unfolding longText_def using scanTokens_line [OF 1(1), of _ "[]"] by simp
  also have "scanTokens (replicate maxScanTokenSize 0x78 @ newline # runes ''c d e'') []
        = replicate maxScanTokenSize 0x78 # scanTokens (runes ''c d e'') []"
    using scanTokens_line [OF 2, of "runes ''c d e''" "[]"] by simp
  also have "scanTokens (runes ''c d e'') [] = [runes ''c d e'']"
    using scanTokens_last [OF 1(2), of "[]"] 1(3) by simp
  finally show ?thesis .
qed

lemma scanLines_longText: "scanLines longText = [runes ''a b'']"
proof -
  have "byteLen (runes ''a b'') < maxScanTokenSize"
    by (simp add: byteLen_def runeLen_def runes_def maxScanTokenSize_def)
  moreover have "\<not> byteLen (replicate maxScanTokenSize 0x78) < maxScanTokenSize"
    by (simp add: byteLen_replicate_x)
  moreover have "dropCR (runes ''a b'') = runes ''a b''"
    by (simp add: dropCR_def runes_def carriage_def)
  ultimately show ?thesis
    by (simp add: scanLines_def scanTokens_longText)
qed

text \<open>
  C2 as stated, an error and no rows whenever any line of the stream has a number of
  candidate fields outside \<open>[min_cols, max_cols]\<close>, fails on a stream with a line of 65536
  bytes or more: the scanner stops at that line, \<^verbatim>\<open>readArrays\<close> does not read the
  scanner's error, and the lines behind it are never counted. Of the three lines
  \<^verbatim>\<open>a b\<close>, 65536 times the letter x, and \<^verbatim>\<open>c d e\<close>, with bounds 2 and 2, the third has
  three candidate fields, and the call returns the row \<open>["a", "b"]\<close> and no error.
\<close>

theorem readArrays_long_line_counterexample:
  "scanTokens longText [] = [runes ''a b'', replicate maxScanTokenSize 0x78, runes ''c d e'']
   \<and> length (candidates (runes ''c d e'')) = 3
   \<and> malformed 2 2 (runes ''c d e'')
   \<and> readArrays longText 2 2 = ([[runes ''a'', runes ''b'']], None)"
proof -
  have m: "length (candidates (runes ''c d e'')) = 3" "malformed 2 2 (runes ''c d e'')"
    by (simp_all add: malformed_def candidates_def runes_def squoteR_def dquoteR_def hash_def
      TrimSpace_def IsSpace_def squoteNext_def dquoteNext_def)
  have r: "readArrays longText 2 2 = ([[runes ''a'', runes ''b'']], None)"
    unfolding readArrays_def scanLines_longText
    by (simp add: runes_def squoteR_def dquoteR_def hash_def TrimSpace_def IsSpace_def
      squoteNext_def dquoteNext_def)
  show ?thesis using m r scanTokens_longText by simp
qed

text \<open>
  C2, amended: for every input and all bounds, if a line that the scanner yields (a line
  before the first line of 65536 bytes or more) has a number of candidate fields outside
  \<open>[min_cols, max_cols]\<close>, \<^verbatim>\<open>readArrays\<close> returns an error and no rows; the message names
  the exact count when \<open>min_cols = max_cols\<close> and the range otherwise, and ends with the
  first such line exactly as the scanner yielded it, comment and quotes included. With
  bounds 2 and 2, a line of three unquoted fields fails with a message that names 2 and
  the line.
\<close>

theorem readArrays_malformed_line:
  assumes "l0 \<in> set (scanLines r)" and "malformed min_cols max_cols l0"
  shows "(\<exists>l. find (malformed min_cols max_cols) (scanLines r) = Some l
            \<and> readArrays r min_cols max_cols
                = ([], Some (runes ''expected ''
                       @ (if min_cols = max_cols then showInt min_cols
                          else showInt min_cols @ runes ''~'' @ showInt max_cols)
                       @ runes '' columns but found: '' @ l)))
       \<and> readArrays (runes ''a b c'') 2 2
           = ([], Some (runes ''expected 2 columns but found: a b c''))"
proof -
  obtain l where l: "find (malformed min_cols max_cols) (scanLines r) = Some l"
    using assms by (cases "find (malformed min_cols max_cols) (scanLines r)")
      (auto simp: find_None_iff)
  have "readArrays r min_cols max_cols = ([], Some (columnsError min_cols max_cols l))"
    unfolding readArrays_def by (rule readLoop_first_malformed [OF l])
  then have g: "readArrays r min_cols max_cols
        = ([], Some (runes ''expected ''
               @ (if min_cols = max_cols then showInt min_cols
                  else showInt min_cols @ runes ''~'' @ showInt max_cols)
               @ runes '' columns but found: '' @ l))"
    by (simp add: columnsError_def)
  have s: "scanLines (runes ''a b c'') = [runes ''a b c'']"
    by (simp add: scanLines_def runes_def newline_def dropCR_def
      carriage_def byteLen_def runeLen_def maxScanTokenSize_def)
  have e: "readArrays (runes ''a b c'') 2 2
           = ([], Some (runes ''expected 2 columns but found: a b c''))"
    unfolding readArrays_def s
    by (simp add: runes_def squoteR_def dquoteR_def hash_def TrimSpace_def IsSpace_def
      squoteNext_def dquoteNext_def columnsError_def showInt_def showNat.simps)
  show ?thesis using l g e by blast
qed

theorem readArrays_malformed_line_witness:
  "runes ''a b c # x'' \<in> set (scanLines (runes ''a b c # x''))
   \<and> malformed 2 2 (runes ''a b c # x'')
   \<and> readArrays (runes ''a b c # x'') 2 2
       = ([], Some (runes ''expected 2 columns but found: a b c # x''))
   \<and> runes ''a'' \<in> set (scanLines (runes ''a'')) \<and> malformed 2 3 (runes ''a'')
   \<and> readArrays (runes ''a'') 2 3 = ([], Some (runes ''expected 2~3 columns but found: a''))"
proof -
  have s: "scanLines (runes ''a b c # x'') = [runes ''a b c # x'']"
    "scanLines (runes ''a'') = [runes ''a'']"
    by (simp_all add: scanLines_def runes_def newline_def dropCR_def
      carriage_def byteLen_def runeLen_def maxScanTokenSize_def)
  have m: "malformed 2 2 (runes ''a b c # x'')" "malformed 2 3 (runes ''a'')"
    by (simp_all add: malformed_def candidates_def runes_def squoteR_def dquoteR_def hash_def
      TrimSpace_def IsSpace_def squoteNext_def dquoteNext_def)
  have i: "runes ''a b c # x'' \<in> set (scanLines (runes ''a b c # x''))"
    "runes ''a'' \<in> set (scanLines (runes ''a''))"
    unfolding s by simp_all
  have d: "showInt 2 = runes ''2''" "showInt 3 = runes ''3''"
    by (simp_all add: showInt_def showNat.simps runes_def)
  have f: "find (malformed 2 2) (scanLines (runes ''a b c # x'')) = Some l
           \<longleftrightarrow> l = runes ''a b c # x''"
    "find (malformed 2 3) (scanLines (runes ''a'')) = Some l \<longleftrightarrow> l = runes ''a''" for l
    unfolding s using m by auto
  have a: "readArrays (runes ''a b c # x'') 2 2
       = ([], Some (runes ''expected 2 columns but found: a b c # x''))"
    using readArrays_malformed_line [OF i(1) m(1)] unfolding f d by (simp add: runes_def)
  have b: "readArrays (runes ''a'') 2 3 = ([], Some (runes ''expected 2~3 columns but found: a''))"
    using readArrays_malformed_line [OF i(2) m(2)] unfolding f d by (simp add: runes_def)
  show ?thesis using i m a b by simp
qed

section \<open>NaturalComparator: the loop compares run lists\<close>

lemma runs_Nil_iff: "runs s = [] \<longleftrightarrow> s = []"
  by (cases s) (simp_all split: list.split)

lemma runs_unfold:
  "s \<noteq> [] \<Longrightarrow>
   runs s = takeWhile (\<lambda>c. isDigit c = isDigit (hd s)) s
            # runs (dropWhile (\<lambda>c. isDigit c = isDigit (hd s)) s)"
proof (induction s)
  case Nil
  then show ?case by simp
next
  case (Cons c cs)
  show ?case
  proof (cases cs)
    case Nil
    then show ?thesis by simp
  next
    case (Cons c' cs')
    then have IH: "runs cs = takeWhile (\<lambda>x. isDigit x = isDigit c') cs
                   # runs (dropWhile (\<lambda>x. isDigit x = isDigit c') cs)"
      using Cons.IH by simp
    have hd: "hd (takeWhile (\<lambda>x. isDigit x = isDigit c') cs) = c'"
      using Cons by simp
    show ?thesis
    proof (cases "isDigit c = isDigit c'")
      case True
      then show ?thesis using IH hd by (simp add: Cons)
    next
      case False
      then have "isDigit c' \<noteq> isDigit c" by auto
      then show ?thesis using IH hd False by (simp add: Cons)
    qed
  qed
qed

lemma runEnd_takeWhile:
  "hi \<le> length s \<Longrightarrow>
   runEnd s d hi = hi + length (takeWhile (\<lambda>c. isDigit c = d) (drop hi s))"
proof (induction s d hi rule: runEnd.induct)
  case (1 s d hi)
  show ?case
  proof (cases "hi < length s \<and> isDigit (s ! hi) = d")
    case True
    then have d: "drop hi s = s ! hi # drop (Suc hi) s"
      by (simp add: Cons_nth_drop_Suc)
    have "runEnd s d hi = runEnd s d (Suc hi)"
      using True by (subst runEnd.simps) simp
    also have "\<dots> = Suc hi + length (takeWhile (\<lambda>c. isDigit c = d) (drop (Suc hi) s))"
      using True "1.IH" by simp
    finally show ?thesis using True d by simp
  next
    case False
    have r: "runEnd s d hi = hi" using False by (subst runEnd.simps) auto
    show ?thesis
    proof (cases "hi < length s")
      case True
      then have d: "drop hi s = s ! hi # drop (Suc hi) s"
        by (simp add: Cons_nth_drop_Suc)
      with False True r show ?thesis by simp
    next
      case False
      with "1.prems" r show ?thesis by simp
    qed
  qed
qed

lemma slice_run:
  "hi \<le> length s \<Longrightarrow>
   slice s hi (runEnd s d hi) = takeWhile (\<lambda>c. isDigit c = d) (drop hi s)"
  by (simp add: slice_def runEnd_takeWhile takeWhile_eq_take [symmetric])

lemma drop_run:
  "hi \<le> length s \<Longrightarrow>
   drop (runEnd s d hi) s = dropWhile (\<lambda>c. isDigit c = d) (drop hi s)"
  by (simp add: runEnd_takeWhile dropWhile_eq_drop add.commute)

lemma runEnd_le: "hi \<le> length s \<Longrightarrow> runEnd s d hi \<le> length s"
proof -
  assume a: "hi \<le> length s"
  have "length (takeWhile (\<lambda>c. isDigit c = d) (drop hi s)) \<le> length (drop hi s)"
    by (rule length_takeWhile_le)
  then show ?thesis using a by (simp add: runEnd_takeWhile)
qed

lemma naturalLessLoop_runs:
  "hi1 \<le> length s1 \<Longrightarrow> hi2 \<le> length s2 \<Longrightarrow>
   naturalLessLoop s1 s2 hi1 hi2 = lessRuns (runs (drop hi1 s1)) (runs (drop hi2 s2))"
proof (induction s1 s2 hi1 hi2 rule: naturalLessLoop.induct)
  case (1 s1 s2 hi1 hi2)
  show ?case
  proof (cases "hi1 \<ge> length s1")
    case True
    then show ?thesis using "1.prems"
      by (subst naturalLessLoop.simps) (auto simp: runs_Nil_iff)
  next
    case n1: False
    show ?thesis
    proof (cases "hi2 \<ge> length s2")
      case True
      then have "runs (drop hi2 s2) = []" by simp
      moreover have "runs (drop hi1 s1) \<noteq> []" using n1 by (simp add: runs_Nil_iff)
      ultimately show ?thesis using n1 True
        by (subst naturalLessLoop.simps) (cases "runs (drop hi1 s1)"; simp)
    next
      case n2: False
      let ?d1 = "isDigit (s1 ! hi1)" and ?d2 = "isDigit (s2 ! hi2)"
      let ?e1 = "runEnd s1 ?d1 hi1" and ?e2 = "runEnd s2 ?d2 hi2"
      have h1: "hd (drop hi1 s1) = s1 ! hi1" "drop hi1 s1 \<noteq> []"
        using n1 by (simp_all add: hd_drop_conv_nth)
      have h2: "hd (drop hi2 s2) = s2 ! hi2" "drop hi2 s2 \<noteq> []"
        using n2 by (simp_all add: hd_drop_conv_nth)
      have r1: "runs (drop hi1 s1) = slice s1 hi1 ?e1 # runs (drop ?e1 s1)"
        using runs_unfold [OF h1(2)] "1.prems"(1) by (simp add: h1 slice_run drop_run)
      have r2: "runs (drop hi2 s2) = slice s2 hi2 ?e2 # runs (drop ?e2 s2)"
        using runs_unfold [OF h2(2)] "1.prems"(2) by (simp add: h2 slice_run drop_run)
      have hd1: "hd (slice s1 hi1 ?e1) = s1 ! hi1"
        using "1.prems"(1) n1 by (simp add: slice_run Cons_nth_drop_Suc [symmetric])
      have hd2: "hd (slice s2 hi2 ?e2) = s2 ! hi2"
        using "1.prems"(2) n2 by (simp add: slice_run Cons_nth_drop_Suc [symmetric])
      show ?thesis
      proof (cases "slice s1 hi1 ?e1 = slice s2 hi2 ?e2")
        case True
        have "naturalLessLoop s1 s2 hi1 hi2 = naturalLessLoop s1 s2 ?e1 ?e2"
          using n1 n2 True by (subst naturalLessLoop.simps) simp
        also have "\<dots> = lessRuns (runs (drop ?e1 s1)) (runs (drop ?e2 s2))"
          using n1 n2 True "1.prems" by (intro "1.IH") (simp_all add: runEnd_le)
        finally show ?thesis using True by (simp add: r1 r2)
      next
        case False
        have "naturalLessLoop s1 s2 hi1 hi2
              = compareRuns ?d1 ?d2 (slice s1 hi1 ?e1) (slice s2 hi2 ?e2)"
          using n1 n2 False by (subst naturalLessLoop.simps) simp
        then show ?thesis using False by (simp add: r1 r2 hd1 hd2)
      qed
    qed
  qed
qed

lemma naturalLess_runs: "naturalLess s1 s2 = lessRuns (runs s1) (runs s2)"
  by (simp add: naturalLess_def naturalLessLoop_runs)

section \<open>NaturalComparator: first difference and exhaustion\<close>

lemma runs_elems:
  "r \<in> set (runs s) \<Longrightarrow> r \<noteq> [] \<and> list_all (\<lambda>c. isDigit c = isDigit (hd r)) r"
proof (induction s arbitrary: r)
  case Nil
  then show ?case by simp
next
  case (Cons c cs)
  show ?case
  proof (cases "runs cs")
    case Nil
    with Cons.prems show ?thesis by simp
  next
    case (Cons r0 rs0)
    have r0: "r0 \<noteq> [] \<and> list_all (\<lambda>x. isDigit x = isDigit (hd r0)) r0"
      using Cons.IH [of r0] Cons by simp
    have rest: "r' \<noteq> [] \<and> list_all (\<lambda>x. isDigit x = isDigit (hd r')) r'" if "r' \<in> set rs0" for r'
      using Cons.IH [of r'] Cons that by simp
    show ?thesis
    proof (cases "isDigit c = isDigit (hd r0)")
      case True
      then have "r = c # r0 \<or> r \<in> set rs0" using Cons.prems Cons by simp
      then show ?thesis using r0 rest True by auto
    next
      case False
      then have "r = [c] \<or> r = r0 \<or> r \<in> set rs0" using Cons.prems Cons by simp
      then show ?thesis using r0 rest by auto
    qed
  qed
qed

lemma concat_runs: "concat (runs s) = s"
  by (induction s) (auto split: list.split)

lemma isDigit_sign: "\<not> isDigit CHR ''-''" "\<not> isDigit CHR ''+''"
  by (simp_all add: isDigit_def)

lemma Atoi_digits:
  assumes "x \<noteq> []" "list_all isDigit x"
  shows "Atoi x = (if decimal x \<le> maxInt then Some (decimal x) else None)"
proof -
  have "isDigit (hd x)" using assms by (cases x) simp_all
  then have "hd x \<noteq> CHR ''-''" "hd x \<noteq> CHR ''+''" using isDigit_sign by auto
  then show ?thesis using assms by (simp add: Atoi_def)
qed

lemma compareRuns_run:
  assumes "x \<noteq> []" "list_all (\<lambda>c. isDigit c = isDigit (hd x)) x"
      and "y \<noteq> []" "list_all (\<lambda>c. isDigit c = isDigit (hd y)) y"
  shows "compareRuns (isDigit (hd x)) (isDigit (hd y)) x y
         = (if list_all isDigit x \<and> list_all isDigit y
               \<and> decimal x \<le> maxInt \<and> decimal y \<le> maxInt
            then decimal x < decimal y else strLess x y)"
proof -
  have x: "list_all isDigit x \<longleftrightarrow> isDigit (hd x)"
    using assms(1,2) by (cases x) (auto simp: list_all_iff)
  have y: "list_all isDigit y \<longleftrightarrow> isDigit (hd y)"
    using assms(3,4) by (cases y) (auto simp: list_all_iff)
  show ?thesis
  proof (cases "isDigit (hd x) \<and> isDigit (hd y)")
    case True
    then have "list_all isDigit x" "list_all isDigit y" using x y by auto
    then show ?thesis using True assms(1,3)
      by (simp add: compareRuns_def Atoi_digits)
  next
    case False
    then show ?thesis using x y by (auto simp: compareRuns_def)
  qed
qed

lemma lessRuns_common_prefix:
  "x \<noteq> y \<Longrightarrow>
   lessRuns (pre @ x # xs) (pre @ y # ys) = compareRuns (isDigit (hd x)) (isDigit (hd y)) x y"
  by (induction pre) simp_all

lemma lessRuns_strict_prefix:
  "strict_prefix xs ys \<Longrightarrow> lessRuns xs ys \<and> \<not> lessRuns ys xs"
proof (induction xs arbitrary: ys)
  case Nil
  then show ?case by (cases ys) simp_all
next
  case (Cons x xs)
  then obtain ys' where ys: "ys = x # ys'" "strict_prefix xs ys'"
    by (cases ys) (auto simp: strict_prefix_def)
  then show ?case using Cons.IH [of ys'] by simp
qed

lemma lessRuns_irrefl: "\<not> lessRuns xs xs"
  by (induction xs) simp_all

text \<open>
  C4 as stated, two differing digit runs are compared as non-negative integers, fails
  for digit runs beyond the range of a machine integer: \<open>2^63\<close> is smaller than
  \<open>10^19\<close>, but \<^verbatim>\<open>Atoi\<close> fails on both, and as texts the first is not smaller.
\<close>

theorem naturalLess_digit_runs_counterexample:
  "runs ''9223372036854775808'' = [''9223372036854775808'']
   \<and> runs ''10000000000000000000'' = [''10000000000000000000'']
   \<and> list_all isDigit ''9223372036854775808'' \<and> list_all isDigit ''10000000000000000000''
   \<and> decimal ''9223372036854775808'' < decimal ''10000000000000000000''
   \<and> \<not> naturalLess ''9223372036854775808'' ''10000000000000000000''"
  by (simp add: naturalLess_runs isDigit_def compareRuns_def Atoi_def decimal_def maxInt_def)

text \<open>
  C4, amended: \<open>naturalLess "img2" "img10"\<close> is true, \<open>naturalLess "img10" "img2"\<close> is
  false and \<open>naturalLess "bar2bar" "foo10bar"\<close> is true; when the first pair of runs
  that differ as texts are two digit runs whose values both fit a machine integer (at
  most \<open>2^63 - 1\<close>), they are compared as non-negative integers, and otherwise, when one
  of them is not a digit run or is a digit run too large for a machine integer, the two
  runs are compared lexicographically.
\<close>

theorem naturalLess_first_differing_runs:
  assumes "runs s1 = pre @ x # xs" and "runs s2 = pre @ y # ys" and "x \<noteq> y"
  shows "naturalLess s1 s2
           = (if list_all isDigit x \<and> list_all isDigit y
                 \<and> decimal x \<le> maxInt \<and> decimal y \<le> maxInt
              then decimal x < decimal y else strLess x y)
       \<and> naturalLess ''img2'' ''img10''
       \<and> \<not> naturalLess ''img10'' ''img2''
       \<and> naturalLess ''bar2bar'' ''foo10bar''"
proof -
  have x: "x \<noteq> [] \<and> list_all (\<lambda>c. isDigit c = isDigit (hd x)) x"
    using runs_elems [of x s1] assms(1) by simp
  have y: "y \<noteq> [] \<and> list_all (\<lambda>c. isDigit c = isDigit (hd y)) y"
    using runs_elems [of y s2] assms(2) by simp
  have g: "naturalLess s1 s2
           = (if list_all isDigit x \<and> list_all isDigit y
                 \<and> decimal x \<le> maxInt \<and> decimal y \<le> maxInt
              then decimal x < decimal y else strLess x y)"
  proof -
    have "naturalLess s1 s2 = compareRuns (isDigit (hd x)) (isDigit (hd y)) x y"
      unfolding naturalLess_runs assms(1,2) by (rule lessRuns_common_prefix [OF assms(3)])
    also have "\<dots> = (if list_all isDigit x \<and> list_all isDigit y
                 \<and> decimal x \<le> maxInt \<and> decimal y \<le> maxInt
              then decimal x < decimal y else strLess x y)"
      using x y by (intro compareRuns_run) simp_all
    finally show ?thesis .
  qed
  have e: "naturalLess ''img2'' ''img10''" "\<not> naturalLess ''img10'' ''img2''"
    "naturalLess ''bar2bar'' ''foo10bar''"
    by (simp_all add: naturalLess_runs isDigit_def compareRuns_def Atoi_def decimal_def maxInt_def)
  show ?thesis using g e by simp
qed

theorem naturalLess_first_differing_runs_witness:
  "runs ''img2'' = [''img''] @ ''2'' # [] \<and> runs ''img10'' = [''img''] @ ''10'' # []
   \<and> ''2'' \<noteq> ''10''
   \<and> list_all isDigit ''2'' \<and> list_all isDigit ''10''
   \<and> decimal ''2'' = 2 \<and> decimal ''10'' = 10
   \<and> naturalLess ''img2'' ''img10''"
proof -
  have r: "runs ''img2'' = [''img''] @ ''2'' # []" "runs ''img10'' = [''img''] @ ''10'' # []"
    by (simp_all add: isDigit_def)
  have n: "''2'' \<noteq> ''10''" by simp
  have d: "list_all isDigit ''2''" "list_all isDigit ''10''"
    "decimal ''2'' = 2" "decimal ''10'' = 10" "(10::int) \<le> maxInt"
    by (simp_all add: isDigit_def decimal_def maxInt_def)
  show ?thesis
    using naturalLess_first_differing_runs [OF r n] r n d by simp
qed

text \<open>
  C5: when the two strings are walked run by run and one is exhausted before the other
  with all runs compared so far equal, that is, when the runs of \<open>s1\<close> are a proper
  prefix of the runs of \<open>s2\<close>, the exhausted string sorts first: \<open>naturalLess s1 s2\<close> is
  true and \<open>naturalLess s2 s1\<close> is false; when both are exhausted together the strings
  are equal (\<open>concat_runs\<close>) and the result is false: \<open>naturalLess s s\<close> is false for
  every \<open>s\<close>.
\<close>

theorem naturalLess_exhausted_first:
  assumes "strict_prefix (runs s1) (runs s2)"
  shows "naturalLess s1 s2 \<and> \<not> naturalLess s2 s1 \<and> \<not> naturalLess s s"
  using lessRuns_strict_prefix [OF assms] lessRuns_irrefl [of "runs s"]
  by (simp add: naturalLess_runs)

theorem naturalLess_exhausted_first_witness:
  "strict_prefix (runs ''ab'') (runs ''ab12'')
   \<and> naturalLess ''ab'' ''ab12'' \<and> \<not> naturalLess ''ab12'' ''ab'' \<and> \<not> naturalLess ''ab'' ''ab''"
proof -
  have h: "strict_prefix (runs ''ab'') (runs ''ab12'')"
    by (simp add: isDigit_def strict_prefix_def)
  show ?thesis using h naturalLess_exhausted_first [OF h, of "''ab''"] by simp
qed

section \<open>DisplayWidthSlicer: widths of slices\<close>

lemma width_append: "runeSliceWidth rw (xs @ ys) = runeSliceWidth rw xs + runeSliceWidth rw ys"
  by (induction xs) simp_all

lemma width_nonneg: "\<forall>r. 0 \<le> rw r \<Longrightarrow> 0 \<le> runeSliceWidth rw xs"
  by (induction xs) simp_all

lemma width_zero_iff:
  "\<forall>r. 0 \<le> rw r \<Longrightarrow> runeSliceWidth rw xs = 0 \<longleftrightarrow> (\<forall>r \<in> set xs. rw r = 0)"
proof (induction xs)
  case Nil show ?case by simp
next
  case (Cons a xs)
  have "0 \<le> rw a" "0 \<le> runeSliceWidth rw xs" using Cons.prems width_nonneg by auto
  then show ?case using Cons by (auto simp: add_nonneg_eq_0_iff)
qed

lemma width_drop_mono:
  assumes "\<forall>r. 0 \<le> rw r" "i \<le> j"
  shows "runeSliceWidth rw (drop j rs) \<le> runeSliceWidth rw (drop i rs)"
proof -
  have "drop i rs = take (j - i) (drop i rs) @ drop j rs"
    using assms(2) by (metis append_take_drop_id drop_drop le_add_diff_inverse2)
  then have "runeSliceWidth rw (drop i rs)
     = runeSliceWidth rw (take (j - i) (drop i rs)) + runeSliceWidth rw (drop j rs)"
    by (metis width_append)
  then show ?thesis using width_nonneg [OF assms(1), of "take (j - i) (drop i rs)"] by simp
qed

lemma sampleWidth_nonneg: "\<forall>r. 0 \<le> sampleWidth r"
  by (simp add: sampleWidth_def)

subsection \<open>The last runes that fit\<close>

text \<open>
  The scan of \<^verbatim>\<open>runeSliceWidthLastRange\<close> from index \<open>k\<close> down, started with the width
  of the runes after \<open>k\<close>, stops at a suffix that fits and whose next longer suffix does
  not.
\<close>

lemma lastLoop_inv:
  assumes "k \<le> length rs" "lw = runeSliceWidth rw (drop k rs)" "lw \<le> m"
  shows "\<exists>j\<le>k. widthLastLoop rw rs m k lw = drop j rs \<and> runeSliceWidth rw (drop j rs) \<le> m
          \<and> (j = 0 \<or> (0 < j \<and> m < runeSliceWidth rw (drop (j - 1) rs)))"
  using assms
proof (induction k arbitrary: lw)
  case 0
  then show ?case by simp
next
  case (Suc k)
  have d: "drop k rs = rs ! k # drop (Suc k) rs"
    using Suc.prems(1) by (simp add: Cons_nth_drop_Suc)
  show ?case
  proof (cases "lw + rw (rs ! k) > m")
    case True
    then show ?thesis using Suc.prems d
      by (intro exI [of _ "Suc k"]) (simp add: Let_def)
  next
    case False
    have "\<exists>j\<le>k. widthLastLoop rw rs m k (lw + rw (rs ! k)) = drop j rs
          \<and> runeSliceWidth rw (drop j rs) \<le> m
          \<and> (j = 0 \<or> (0 < j \<and> m < runeSliceWidth rw (drop (j - 1) rs)))"
      using Suc.prems False d by (intro Suc.IH) simp_all
    then obtain j where "j \<le> k" "widthLastLoop rw rs m k (lw + rw (rs ! k)) = drop j rs"
      "runeSliceWidth rw (drop j rs) \<le> m"
      "j = 0 \<or> (0 < j \<and> m < runeSliceWidth rw (drop (j - 1) rs))" by blast
    then show ?thesis using False
      by (intro exI [of _ j]) (simp add: Let_def)
  qed
qed

text \<open>
  C8: for every rune sequence \<open>rs\<close> and every \<open>maxWidth \<ge> 0\<close>,
  \<open>runeSliceWidthLastRange rs maxWidth\<close> is the longest suffix of \<open>rs\<close> whose total
  width is at most \<open>maxWidth\<close>: it is a suffix, its width is at most \<open>maxWidth\<close>, no
  suffix that fits is longer, and unless it is all of \<open>rs\<close>, the rune just before it
  together with it is wider than \<open>maxWidth\<close>.
\<close>

theorem lastRange_longest_suffix:
  assumes nonneg: "\<forall>r. 0 \<le> rw r" and m: "0 \<le> maxWidth"
  shows "suffix (runeSliceWidthLastRange rw rs maxWidth) rs
       \<and> runeSliceWidth rw (runeSliceWidthLastRange rw rs maxWidth) \<le> maxWidth
       \<and> (\<forall>s. suffix s rs \<and> runeSliceWidth rw s \<le> maxWidth
             \<longrightarrow> length s \<le> length (runeSliceWidthLastRange rw rs maxWidth))
       \<and> (runeSliceWidthLastRange rw rs maxWidth = rs
          \<or> (length (runeSliceWidthLastRange rw rs maxWidth) < length rs \<and>
             maxWidth < runeSliceWidth rw
               (rs ! (length rs - length (runeSliceWidthLastRange rw rs maxWidth) - 1)
                 # runeSliceWidthLastRange rw rs maxWidth)))"
proof -
  let ?res = "runeSliceWidthLastRange rw rs maxWidth"
  obtain j where j: "j \<le> length rs" "?res = drop j rs" "runeSliceWidth rw (drop j rs) \<le> maxWidth"
      "j = 0 \<or> (0 < j \<and> maxWidth < runeSliceWidth rw (drop (j - 1) rs))"
    using lastLoop_inv [of "length rs" rs 0 rw maxWidth] m
    unfolding runeSliceWidthLastRange_def by auto
  have 1: "suffix ?res rs" using j(2) by (simp add: suffix_drop)
  have 2: "runeSliceWidth rw ?res \<le> maxWidth" using j by simp
  have 3: "length s \<le> length ?res" if s: "suffix s rs" "runeSliceWidth rw s \<le> maxWidth" for s
  proof (rule ccontr)
    assume "\<not> length s \<le> length ?res"
    then have lt: "length rs - j < length s" using j by simp
    have sd: "s = drop (length rs - length s) rs"
      using s(1) by (auto simp: suffix_def)
    have "length s \<le> length rs" using s(1) by (simp add: suffix_length_le)
    with lt have jp: "0 < j" "length rs - length s \<le> j - 1" by auto
    with j(4) have "maxWidth < runeSliceWidth rw (drop (j - 1) rs)" by auto
    also have "\<dots> \<le> runeSliceWidth rw (drop (length rs - length s) rs)"
      by (rule width_drop_mono [OF nonneg jp(2)])
    finally show False using s(2) sd by simp
  qed
  have 4: "?res = rs \<or> (length ?res < length rs \<and>
      maxWidth < runeSliceWidth rw (rs ! (length rs - length ?res - 1) # ?res))"
  proof (cases "j = 0")
    case True
    then show ?thesis using j(2) by simp
  next
    case False
    then have jp: "0 < j" "maxWidth < runeSliceWidth rw (drop (j - 1) rs)" using j(4) by auto
    have "drop (j - 1) rs = rs ! (j - 1) # drop j rs"
      using jp(1) j(1) Cons_nth_drop_Suc [of "j - 1" rs] by simp
    moreover have "length rs - length ?res - 1 = j - 1" using j by simp
    moreover have "length ?res < length rs" using j jp by simp
    ultimately show ?thesis using jp(2) j(2) by simp
  qed
  show ?thesis using 1 2 3 4 by blast
qed

theorem lastRange_longest_suffix_witness:
  "(\<forall>r. 0 \<le> sampleWidth r) \<and> (0::int) \<le> 3 \<and> runeSliceWidth sampleWidth tenCols = 10
   \<and> runeSliceWidthLastRange sampleWidth tenCols 3 = [0x6587]
   \<and> suffix (runeSliceWidthLastRange sampleWidth tenCols 3) tenCols
   \<and> runeSliceWidth sampleWidth (runeSliceWidthLastRange sampleWidth tenCols 3) \<le> 3
   \<and> length (runeSliceWidthLastRange sampleWidth tenCols 3) < length tenCols
   \<and> 3 < runeSliceWidth sampleWidth
       (tenCols ! (length tenCols - length (runeSliceWidthLastRange sampleWidth tenCols 3) - 1)
         # runeSliceWidthLastRange sampleWidth tenCols 3)"
proof -
  have h: "(0::int) \<le> 3" by simp
  have e: "runeSliceWidth sampleWidth tenCols = 10"
    "runeSliceWidthLastRange sampleWidth tenCols 3 = [0x6587]"
    by (simp_all add: tenCols_def runes_def sampleWidth_def runeSliceWidthLastRange_def)
  have n: "runeSliceWidthLastRange sampleWidth tenCols 3 \<noteq> tenCols"
    unfolding e by (simp add: tenCols_def)
  show ?thesis
    using lastRange_longest_suffix [OF sampleWidth_nonneg h, of tenCols] sampleWidth_nonneg e(1) n
    by (simp add: e(2))
qed

subsection \<open>Forward ranges\<close>

text \<open>
  Three runs of the loop of \<^verbatim>\<open>runeSliceWidthRange\<close>: after the begin boundary was
  found and with the end out of reach, it returns \<^verbatim>\<open>rs[b:]\<close>; with the begin out of
  reach it returns \<open>rs\<close>; with the begin exactly at the total width it finds the begin
  at the first rune of the zero-width tail, if there is one.
\<close>

lemma rangeLoop_found_no_end:
  assumes "\<forall>r. 0 \<le> rw r" "currW + runeSliceWidth rw rest < en"
  shows "widthRangeLoop rw rs beg en rest i currW b True = drop b rs"
  using assms(2)
proof (induction rest arbitrary: i currW)
  case Nil
  show ?case by simp
next
  case (Cons r rest)
  have "0 \<le> rw r" "0 \<le> runeSliceWidth rw rest"
    using assms(1) width_nonneg by auto
  with Cons.prems have "currW \<noteq> en" "\<not> currW + rw r > en" "currW + rw r + runeSliceWidth rw rest < en"
    by auto
  then show ?case using Cons.IH [of "currW + rw r" "Suc i"] by (simp add: Let_def)
qed

lemma rangeLoop_never_found:
  assumes "\<forall>r. 0 \<le> rw r" "currW + runeSliceWidth rw rest < beg" "beg < en"
  shows "widthRangeLoop rw rs beg en rest i currW 0 False = rs"
  using assms(2)
proof (induction rest arbitrary: i currW)
  case Nil
  show ?case by simp
next
  case (Cons r rest)
  have "0 \<le> rw r" "0 \<le> runeSliceWidth rw rest"
    using assms(1) width_nonneg by auto
  with Cons.prems assms(3)
  have "\<not> currW \<ge> beg" "currW \<noteq> en" "\<not> currW + rw r > en"
       "currW + rw r + runeSliceWidth rw rest < beg"
    by auto
  then show ?case using Cons.IH [of "currW + rw r" "Suc i"] by (simp add: Let_def)
qed

lemma zeroTail_Cons:
  "zeroTail rw (r # rs) = (if (\<forall>x \<in> set rs. rw x = 0) \<and> rw r = 0 then r # rs else zeroTail rw rs)"
proof (cases "\<forall>x \<in> set rs. rw x = 0")
  case True
  then have tw: "takeWhile (\<lambda>r. rw r = 0) (rev rs) = rev rs" by simp
  have "takeWhile (\<lambda>r. rw r = 0) (rev rs @ [r]) = rev rs @ takeWhile (\<lambda>r. rw r = 0) [r]"
    using True by (simp add: takeWhile_append)
  then have "zeroTail rw (r # rs) = (if rw r = 0 then r # rs else rs)"
    by (simp add: zeroTail_def)
  moreover have "zeroTail rw rs = rs" unfolding zeroTail_def tw by simp
  ultimately show ?thesis using True by simp
next
  case False
  then show ?thesis by (auto simp add: zeroTail_def takeWhile_append)
qed

lemma dropZeroTail_Cons:
  "dropZeroTail rw (r # rs) = (if (\<forall>x \<in> set rs. rw x = 0) \<and> rw r = 0 then [] else r # dropZeroTail rw rs)"
  by (auto simp: dropZeroTail_def dropWhile_append)

lemma zeroTail_Nil_iff: "zeroTail rw rs = [] \<longleftrightarrow> rs = [] \<or> rw (last rs) \<noteq> 0"
  by (cases rs rule: rev_cases) (simp_all add: zeroTail_def)

lemma dropZeroTail_id_iff: "dropZeroTail rw rs = rs \<longleftrightarrow> rs = [] \<or> rw (last rs) \<noteq> 0"
proof (cases rs rule: rev_cases)
  case Nil
  then show ?thesis by (simp add: dropZeroTail_def)
next
  case (snoc ys y)
  show ?thesis
  proof (cases "rw y = 0")
    case True
    have "length (dropWhile (\<lambda>r. rw r = 0) (rev ys)) \<le> length ys"
      using length_dropWhile_le [of _ "rev ys"] by simp
    then have "length (dropZeroTail rw rs) < length rs"
      using snoc True by (simp add: dropZeroTail_def)
    then have "dropZeroTail rw rs \<noteq> rs" by auto
    then show ?thesis using snoc True by simp
  next
    case False
    then show ?thesis using snoc by (simp add: dropZeroTail_def)
  qed
qed

lemma rangeLoop_at_width:
  assumes nonneg: "\<forall>r. 0 \<le> rw r" and "beg < en"
    and "rs = pre @ rest" "i = length pre" "currW + runeSliceWidth rw rest = beg"
  shows "widthRangeLoop rw rs beg en rest i currW 0 False
         = (if zeroTail rw rest = [] then rs else zeroTail rw rest)"
  using assms(3-)
proof (induction rest arbitrary: pre i currW)
  case Nil
  show ?case by (simp add: zeroTail_def)
next
  case (Cons r rest)
  have nn: "0 \<le> rw r" "0 \<le> runeSliceWidth rw rest"
    using nonneg width_nonneg by auto
  show ?case
  proof (cases "currW \<ge> beg")
    case True
    with Cons.prems nn have z: "rw r = 0" "runeSliceWidth rw rest = 0" "currW = beg" by auto
    then have allz: "(\<forall>x \<in> set rest. rw x = 0) \<and> rw r = 0"
      using width_zero_iff [OF nonneg, of rest] by simp
    have "widthRangeLoop rw rs beg en rest (Suc i) (currW + rw r) i True = drop i rs"
      by (rule rangeLoop_found_no_end [OF nonneg]) (use z assms(2) in simp)
    moreover have "drop i rs = r # rest" using Cons.prems by simp
    ultimately show ?thesis using True z assms(2) allz
      by (simp add: Let_def zeroTail_Cons)
  next
    case False
    with Cons.prems nn have pos: "0 < rw r + runeSliceWidth rw rest" by auto
    then have nallz: "\<not> ((\<forall>x \<in> set rest. rw x = 0) \<and> rw r = 0)"
      using width_zero_iff [OF nonneg, of "r # rest"] by auto
    have e: "currW \<noteq> en" "\<not> currW + rw r > en"
      using False Cons.prems nn assms(2) by auto
    have "widthRangeLoop rw rs beg en rest (Suc i) (currW + rw r) 0 False
         = (if zeroTail rw rest = [] then rs else zeroTail rw rest)"
      using Cons.prems by (intro Cons.IH [of "pre @ [r]"]) simp_all
    then show ?thesis using False e nallz
      by (auto simp add: Let_def zeroTail_Cons)
  qed
qed

text \<open>
  With \<open>beg = 0\<close> and \<open>end\<close> the total width the begin is found at once, and the loop
  returns at the first index where the width so far already is the total width: the
  result is \<open>rs\<close> without its zero-width tail.
\<close>

lemma rangeLoop_to_width:
  assumes nonneg: "\<forall>r. 0 \<le> rw r"
    and "rs = pre @ rest" "i = length pre" "currW + runeSliceWidth rw rest = en"
  shows "widthRangeLoop rw rs 0 en rest i currW 0 True = pre @ dropZeroTail rw rest"
  using assms(2-)
proof (induction rest arbitrary: pre i currW)
  case Nil
  then show ?case by (simp add: dropZeroTail_def)
next
  case (Cons r rest)
  have nn: "0 \<le> rw r" "0 \<le> runeSliceWidth rw rest"
    using nonneg width_nonneg by auto
  show ?case
  proof (cases "currW = en")
    case True
    with Cons.prems have "runeSliceWidth rw (r # rest) = 0" by simp
    then have allz: "(\<forall>x \<in> set rest. rw x = 0) \<and> rw r = 0"
      using width_zero_iff [OF nonneg, of "r # rest"] by simp
    show ?thesis using True allz Cons.prems
      by (simp add: Let_def dropZeroTail_Cons)
  next
    case False
    with Cons.prems have "runeSliceWidth rw (r # rest) \<noteq> 0" by auto
    then have nallz: "\<not> ((\<forall>x \<in> set rest. rw x = 0) \<and> rw r = 0)"
      using width_zero_iff [OF nonneg, of "r # rest"] by auto
    have e: "\<not> currW + rw r > en" using Cons.prems nn by auto
    have "widthRangeLoop rw rs 0 en rest (Suc i) (currW + rw r) 0 True
          = (pre @ [r]) @ dropZeroTail rw rest"
      using Cons.prems by (intro Cons.IH) simp_all
    then show ?thesis using False e nallz
      by (auto simp add: Let_def dropZeroTail_Cons)
  qed
qed

lemma range_full_width:
  assumes nonneg: "\<forall>r. 0 \<le> rw r"
  shows "runeSliceWidthRange rw rs 0 (runeSliceWidth rw rs) = dropZeroTail rw rs"
proof (cases rs)
  case Nil
  then show ?thesis by (simp add: runeSliceWidthRange_def dropZeroTail_def)
next
  case (Cons r rest)
  show ?thesis
  proof (cases "runeSliceWidth rw rs = 0")
    case True
    then have "\<forall>x \<in> set rs. rw x = 0" using width_zero_iff [OF nonneg, of rs] by simp
    then have "dropZeroTail rw rs = []" by (simp add: dropZeroTail_def)
    with True show ?thesis by (simp add: runeSliceWidthRange_def)
  next
    case False
    then have nallz: "\<not> ((\<forall>x \<in> set rest. rw x = 0) \<and> rw r = 0)"
      using width_zero_iff [OF nonneg, of rs] Cons by auto
    have nn: "0 \<le> rw r" "0 \<le> runeSliceWidth rw rest"
      using nonneg width_nonneg by auto
    have "widthRangeLoop rw rs 0 (runeSliceWidth rw rs) rest (Suc 0) (0 + rw r) 0 True
          = [r] @ dropZeroTail rw rest"
      using Cons by (intro rangeLoop_to_width [OF nonneg]) simp_all
    moreover have "0 \<noteq> runeSliceWidth rw rs" "\<not> rw r > runeSliceWidth rw rs"
      using False nn Cons by auto
    ultimately show ?thesis using False nallz Cons
      by (auto simp add: runeSliceWidthRange_def Let_def dropZeroTail_Cons)
  qed
qed

text \<open>
  C7 as stated, \<open>runeSliceWidthRange rs 0 (runeSliceWidth rs) = rs\<close> for every \<open>rs\<close>,
  fails: of the letter e followed by a combining acute accent only the letter is
  returned, and of the accent alone nothing (the guard \<^verbatim>\<open>beg == end\<close>).
\<close>

theorem range_full_width_counterexample:
  "runeSliceWidthRange sampleWidth [0x65, 0x301] 0 (runeSliceWidth sampleWidth [0x65, 0x301]) = [0x65]
   \<and> runeSliceWidthRange sampleWidth [0x65, 0x301] 0 (runeSliceWidth sampleWidth [0x65, 0x301]) \<noteq> [0x65, 0x301]
   \<and> runeSliceWidthRange sampleWidth [0x301] 0 (runeSliceWidth sampleWidth [0x301]) = []"
  by (simp add: runeSliceWidthRange_def sampleWidth_def)

text \<open>
  C7, amended: \<open>runeSliceWidthRange rs 0 (runeSliceWidth rs)\<close> returns \<open>rs\<close> unchanged
  exactly when \<open>rs\<close> is empty or its last rune has a positive width.
\<close>

theorem range_full_width_iff:
  assumes nonneg: "\<forall>r. 0 \<le> rw r"
  shows "runeSliceWidthRange rw rs 0 (runeSliceWidth rw rs) = rs \<longleftrightarrow> rs = [] \<or> 0 < rw (last rs)"
proof -
  have "rw (last rs) \<noteq> 0 \<longleftrightarrow> 0 < rw (last rs)"
    using nonneg by (metis less_le)
  then show ?thesis
    using range_full_width [OF nonneg, of rs] dropZeroTail_id_iff [of rw rs] by simp
qed

theorem range_full_width_iff_witness:
  "(\<forall>r. 0 \<le> sampleWidth r)
   \<and> runeSliceWidthRange sampleWidth (runes ''abc'') 0 (runeSliceWidth sampleWidth (runes ''abc''))
       = runes ''abc''"
proof -
  have "0 < sampleWidth (last (runes ''abc''))"
    by (simp add: sampleWidth_def runes_def)
  then show ?thesis
    using range_full_width_iff [OF sampleWidth_nonneg, of "runes ''abc''"] sampleWidth_nonneg
    by simp
qed

text \<open>
  C9 as stated, the whole of \<open>rs\<close> for every non-empty \<open>rs\<close> and \<open>beg < end\<close> with
  \<open>beg \<ge> runeSliceWidth rs\<close>, fails at \<open>beg = runeSliceWidth rs\<close>: of the letter e
  followed by a combining acute accent, with \<open>beg = 1\<close> and \<open>end = 2\<close>, only the accent
  is returned.
\<close>

theorem range_beyond_width_counterexample:
  "[0x65, 0x301] \<noteq> ([] :: rune list) \<and> (1::int) < 2
   \<and> runeSliceWidth sampleWidth [0x65, 0x301] \<le> 1
   \<and> runeSliceWidthRange sampleWidth [0x65, 0x301] 1 2 = [0x301]
   \<and> runeSliceWidthRange sampleWidth [0x65, 0x301] 1 2 \<noteq> [0x65, 0x301]"
  by (simp add: runeSliceWidthRange_def sampleWidth_def)

text \<open>
  C9, amended: for every non-empty \<open>rs\<close> and \<open>beg < end\<close> with
  \<open>beg \<ge> runeSliceWidth rs\<close>, the result is the whole of \<open>rs\<close> when
  \<open>beg > runeSliceWidth rs\<close> or the last rune has a positive width; when
  \<open>beg = runeSliceWidth rs\<close> and the last rune has width zero, the begin boundary is
  found and the result is the zero-width tail of \<open>rs\<close>.
\<close>

theorem range_beyond_width:
  assumes nonneg: "\<forall>r. 0 \<le> rw r"
    and "rs \<noteq> []" and "beg < en" and "runeSliceWidth rw rs \<le> beg"
  shows "(runeSliceWidth rw rs < beg \<or> 0 < rw (last rs)
            \<longrightarrow> runeSliceWidthRange rw rs beg en = rs)
       \<and> (runeSliceWidth rw rs = beg \<and> rw (last rs) = 0
            \<longrightarrow> runeSliceWidthRange rw rs beg en = zeroTail rw rs)"
proof (cases "runeSliceWidth rw rs < beg")
  case True
  have "widthRangeLoop rw rs beg en rs 0 0 0 False = rs"
    by (rule rangeLoop_never_found [OF nonneg _ assms(3)]) (use True in simp)
  then show ?thesis using True assms(3) by (simp add: runeSliceWidthRange_def)
next
  case False
  then have eq: "runeSliceWidth rw rs = beg" using assms(4) by simp
  have "widthRangeLoop rw rs beg en rs 0 0 0 False
        = (if zeroTail rw rs = [] then rs else zeroTail rw rs)"
    by (rule rangeLoop_at_width [OF nonneg assms(3), of rs "[]"]) (use eq in simp_all)
  then have "runeSliceWidthRange rw rs beg en
        = (if rw (last rs) \<noteq> 0 then rs else zeroTail rw rs)"
    using assms(2,3) by (simp add: runeSliceWidthRange_def zeroTail_Nil_iff)
  then show ?thesis using eq by auto
qed

theorem range_beyond_width_witness:
  "(\<forall>r. 0 \<le> sampleWidth r) \<and> [0x65, 0x301] \<noteq> ([] :: rune list) \<and> (1::int) < 2
   \<and> runeSliceWidth sampleWidth [0x65, 0x301] \<le> 1
   \<and> runeSliceWidth sampleWidth [0x65, 0x301] = 1 \<and> sampleWidth (last [0x65, 0x301]) = 0
   \<and> runeSliceWidthRange sampleWidth [0x65, 0x301] 1 2 = zeroTail sampleWidth [0x65, 0x301]
   \<and> runeSliceWidth sampleWidth (runes ''ab'') < 5
   \<and> runeSliceWidthRange sampleWidth (runes ''ab'') 5 6 = runes ''ab''"
proof -
  have w: "runeSliceWidth sampleWidth [0x65, 0x301] = 1" "sampleWidth (last [0x65, 0x301]) = 0"
    "runeSliceWidth sampleWidth (runes ''ab'') = 2"
    by (simp_all add: sampleWidth_def runes_def)
  show ?thesis
    using range_beyond_width [OF sampleWidth_nonneg, of "[0x65, 0x301]" 1 2]
      range_beyond_width [OF sampleWidth_nonneg, of "runes ''ab''" 5 6]
      sampleWidth_nonneg w
    by (simp add: runes_def)
qed

section \<open>Locale errors\<close>

text \<open>
  C10 as stated, every error contains the input value in quotes, fails for the
  disabled-locale request: the message of \<^verbatim>\<open>makeCollator\<close> for the empty string is a
  fixed text without any quote character.
\<close>

theorem locale_disabled_error_counterexample:
  "makeCollator plainQuote sampleParse sampleDetect sampleNew localeStrDisable ()
     = Inl ''locale suppose to be disabled with given string''
   \<and> plainQuote localeStrDisable = [CHR 0x22, CHR 0x22]
   \<and> \<not> sublist (plainQuote localeStrDisable) ''locale suppose to be disabled with given string''
   \<and> CHR 0x22 \<notin> set ''locale suppose to be disabled with given string''"
proof -
  have q: "CHR 0x22 \<notin> set ''locale suppose to be disabled with given string''" by simp
  have "\<not> sublist [CHR 0x22, CHR 0x22] ''locale suppose to be disabled with given string''"
  proof
    assume "sublist [CHR 0x22, CHR 0x22] ''locale suppose to be disabled with given string''"
    then have "set [CHR 0x22, CHR 0x22] \<subseteq> set ''locale suppose to be disabled with given string''"
      by (rule set_mono_sublist)
    with q show False by simp
  qed
  then show ?thesis using q
    by (simp add: makeCollator_def plainQuote_def localeStrDisable_def)
qed

text \<open>
  C10, amended: the error that \<^verbatim>\<open>getLocaleTag\<close> returns for a locale string that fails
  to parse is \<^verbatim>\<open>invalid locale\<close>, the input quoted by \<^verbatim>\<open>%q\<close>, a colon and the parser's
  message, so it contains the quoted input, and \<^verbatim>\<open>makeCollator\<close> passes it on
  unchanged; for the disable sentinel \<^verbatim>\<open>makeCollator\<close> returns a fixed message instead,
  and for the sentinel of the system locale \<^verbatim>\<open>getLocaleTag\<close> returns whatever the
  detection returns.
\<close>

theorem locale_parse_error_quotes_input:
  assumes "localeStr \<noteq> localeStrSys" and "snd (Parse localeStr) = Some err"
  shows "snd (getLocaleTag Quote Parse Detect localeStr)
           = Some (''invalid locale '' @ Quote localeStr @ '': '' @ err)
       \<and> sublist (Quote localeStr) (''invalid locale '' @ Quote localeStr @ '': '' @ err)
       \<and> makeCollator Quote Parse Detect New localeStr opts
           = (if localeStr = localeStrDisable
              then Inl ''locale suppose to be disabled with given string''
              else Inl (''invalid locale '' @ Quote localeStr @ '': '' @ err))
       \<and> snd (getLocaleTag Quote Parse Detect localeStrSys) = snd Detect"
proof -
  obtain t where p: "Parse localeStr = (t, Some err)"
    using assms(2) by (cases "Parse localeStr") simp
  have g: "getLocaleTag Quote Parse Detect localeStr
           = (t, Some (''invalid locale '' @ Quote localeStr @ '': '' @ err))"
    using assms(1) p by (simp add: getLocaleTag_def)
  have s: "sublist (Quote localeStr) (''invalid locale '' @ Quote localeStr @ '': '' @ err)"
    by (rule sublist_appendI)
  have m: "makeCollator Quote Parse Detect New localeStr opts
           = (if localeStr = localeStrDisable
              then Inl ''locale suppose to be disabled with given string''
              else Inl (''invalid locale '' @ Quote localeStr @ '': '' @ err))"
    by (simp add: makeCollator_def g)
  have d: "snd (getLocaleTag Quote Parse Detect localeStrSys) = snd Detect"
    by (simp add: getLocaleTag_def)
  show ?thesis using g s m d by simp
qed

theorem locale_parse_error_quotes_input_witness:
  "''english'' \<noteq> localeStrSys
   \<and> snd (sampleParse ''english'') = Some ''language: tag is not well-formed''
   \<and> snd (getLocaleTag plainQuote sampleParse sampleDetect ''english'')
       = Some (''invalid locale '' @ plainQuote ''english'' @ '': language: tag is not well-formed'')
   \<and> makeCollator plainQuote sampleParse sampleDetect sampleNew ''english'' ()
       = Inl (''invalid locale '' @ plainQuote ''english'' @ '': language: tag is not well-formed'')"
proof -
  have h: "''english'' \<noteq> localeStrSys"
    "snd (sampleParse ''english'') = Some ''language: tag is not well-formed''"
    by (simp_all add: localeStrSys_def sampleParse_def)
  have n: "''english'' \<noteq> localeStrDisable" by (simp add: localeStrDisable_def)
  show ?thesis
    using locale_parse_error_quotes_input
      [where localeStr = "''english''" and Parse = sampleParse and Quote = plainQuote
         and Detect = sampleDetect and New = sampleNew and opts = "()", OF h] h n
    by simp
qed

end
